theory Spec2Isabelle
  imports Main "HOL-Library.Word"
begin

unbundle bit_operations_syntax

section \<open>The RSP client of PyRvDbg (class RSPClient of main.py)\<close>

text \<open>
  Python \<open>bytes\<close> are sequences of 8-bit values; HOL's \<open>char\<close> is exactly a byte,
  so a \<open>bytes\<close> object is a \<open>char list\<close> and literals read as in the source.
\<close>

type_synonym byte = char
type_synonym bytes = "char list"

subsection \<open>Exceptions, the socket and the observable effects\<close>

text \<open>The exceptions the client code can meet. All of them derive from \<open>Exception\<close>.\<close>

datatype exn =
    NotConnected
  | OSError
  | Timeout
  | ConnectionReset
  | BrokenPipe
  | ValueError
  | IndexError
  | BinasciiError
  | TypeError

text \<open>
  The peer's side of the TCP stream is a script of arrivals. \<open>Now d\<close>: the bytes \<open>d\<close> are
  already in the receive buffer. \<open>Later d\<close>: they arrive only after a wait, inside the
  10 second receive timeout. \<open>Now []\<close> is the orderly end of the stream (\<open>recv\<close> returns
  \<open>b''\<close>). \<open>Reset\<close> makes \<open>recv\<close> raise. An exhausted script means that nothing arrives
  before the timeout. \<open>sends_left\<close> counts the \<open>sendall\<close> calls that still succeed
  (\<open>None\<close>: all of them).
\<close>

datatype arrival = Now bytes | Later bytes | Reset

record socket =
  is_closed :: bool
  inbound :: "arrival list"
  sends_left :: "nat option"

text \<open>The lines the client prints.\<close>

datatype msg =
    MsgDisconnected
  | MsgUnknownAck bytes
  | MsgMalformed bytes
  | MsgTrap bytes
  | MsgLog bytes
  | MsgIgnored bytes
  | MsgUnexpected bytes
  | MsgSocketError exn
  | MsgPollFailed exn

text \<open>
  Everything the client does to the outside, in order: socket calls, calls of the
  observer \<open>_ui\<close> and printed lines. \<open>Wait\<close> records that a \<open>recv\<close> found nothing to read
  and blocked. The observer is the constructor argument \<open>ui\<close>; it is modelled as a
  recorder whose \<open>onStateUpdated\<close> returns without calling back into the client.
\<close>

datatype event =
    Send bytes
  | Wait
  | Recv bytes
  | Select bool
  | Close
  | StateUpdated "string option"
  | Print msg

text \<open>
  The fields of \<open>RSPClient\<close>. The model covers a client whose \<open>_socket\<close> object exists
  (it is created first thing in \<open>connect\<close>).
\<close>

record client =
  sock :: socket
  connected :: bool
  pendingData :: bytes
  trace :: "event list"

definition emit :: "event \<Rightarrow> client \<Rightarrow> client" where
  "emit e c = c\<lparr>trace := trace c @ [e]\<rparr>"

definition py_print :: "msg \<Rightarrow> client \<Rightarrow> client" where
  "py_print m c = emit (Print m) c"

definition ui_onStateUpdated :: "string option \<Rightarrow> client \<Rightarrow> client" where
  "ui_onStateUpdated st c = emit (StateUpdated st) c"

text \<open>\<open>socket.sendall\<close>: raises on a closed socket and when the peer is gone.\<close>

definition sock_sendall :: "bytes \<Rightarrow> client \<Rightarrow> (exn + unit) \<times> client" where
  "sock_sendall bs c =
     (if is_closed (sock c) then (Inl OSError, c)
      else case sends_left (sock c) of
          None \<Rightarrow> (Inr (), emit (Send bs) c)
        | Some 0 \<Rightarrow> (Inl BrokenPipe, c)
        | Some (Suc k) \<Rightarrow> (Inr (), emit (Send bs) (c\<lparr>sock := (sock c)\<lparr>sends_left := Some k\<rparr>\<rparr>)))"

text \<open>
  \<open>socket.recv(n)\<close> hands over at most \<open>n\<close> of the bytes that are there and leaves the
  rest at the head of the script. The end of the stream stays at the head.
\<close>

definition deliver :: "nat \<Rightarrow> bytes \<Rightarrow> arrival list \<Rightarrow> client \<Rightarrow> (exn + bytes) \<times> client" where
  "deliver n d r c =
     (Inr (take n d),
      emit (Recv (take n d))
        (c\<lparr>sock := (sock c)\<lparr>inbound :=
              (if d \<noteq> [] \<and> length d \<le> n then r else Now (drop n d) # r)\<rparr>\<rparr>))"

definition sock_recv :: "nat \<Rightarrow> client \<Rightarrow> (exn + bytes) \<times> client" where
  "sock_recv n c =
     (if is_closed (sock c) then (Inl OSError, c)
      else case inbound (sock c) of
          [] \<Rightarrow> (Inl Timeout, emit Wait c)
        | Reset # r \<Rightarrow> (Inl ConnectionReset, c\<lparr>sock := (sock c)\<lparr>inbound := r\<rparr>\<rparr>)
        | Now d # r \<Rightarrow> deliver n d r c
        | Later d # r \<Rightarrow> deliver n d r (emit Wait c))"

text \<open>\<open>select.select([sock], [], [], 0)\<close>: is there something to read right now?\<close>

definition sock_select :: "client \<Rightarrow> (exn + bool) \<times> client" where
  "sock_select c =
     (if is_closed (sock c) then (Inl ValueError, c)
      else let r = (case inbound (sock c) of
                      [] \<Rightarrow> False
                    | Later d # rest \<Rightarrow> False
                    | Now d # rest \<Rightarrow> True
                    | Reset # rest \<Rightarrow> True)
           in (Inr r, emit (Select r) c))"

definition sock_close :: "client \<Rightarrow> client" where
  "sock_close c = emit Close (c\<lparr>sock := (sock c)\<lparr>is_closed := True\<rparr>\<rparr>)"

subsection \<open>Python library functions used by the client\<close>

text \<open>\<open>bytes.find(b)\<close> for a single byte: the first index, or nothing (Python's -1).\<close>

fun bfind :: "byte \<Rightarrow> bytes \<Rightarrow> nat option" where
  "bfind x [] = None"
| "bfind x (y # ys) = (if x = y then Some 0 else map_option Suc (bfind x ys))"

text \<open>
  \<open>xs[i]\<close>: an index below zero counts back from the end, and an index outside the
  object raises.
\<close>

definition py_index :: "bytes \<Rightarrow> int \<Rightarrow> exn + byte" where
  "py_index xs i =
     (if 0 \<le> i \<and> i < int (length xs) then Inr (xs ! nat i)
      else if i < 0 \<and> - i \<le> int (length xs) then Inr (xs ! (length xs - nat (- i)))
      else Inl IndexError)"

definition hexval :: "byte \<Rightarrow> nat option" where
  "hexval ch =
     (let n = (of_char ch :: nat)
      in if 48 \<le> n \<and> n \<le> 57 then Some (n - 48)
         else if 97 \<le> n \<and> n \<le> 102 then Some (n - 87)
         else if 65 \<le> n \<and> n \<le> 70 then Some (n - 55)
         else None)"

text \<open>\<open>binascii.unhexlify\<close>: \<open>None\<close> stands for \<open>binascii.Error\<close>.\<close>

fun unhexlify :: "bytes \<Rightarrow> bytes option" where
  "unhexlify [] = Some []"
| "unhexlify [a] = None"
| "unhexlify (a # b # r) =
     (case (hexval a, hexval b, unhexlify r) of
        (Some h, Some l, Some bs) \<Rightarrow> Some (char_of (16 * h + l) # bs)
      | _ \<Rightarrow> None)"

definition hexdigit :: "nat \<Rightarrow> byte" where
  "hexdigit d = (if d < 10 then char_of (48 + d) else char_of (87 + d))"

function hex_digits :: "nat \<Rightarrow> bytes" where
  "hex_digits n = (if n < 16 then [hexdigit n] else hex_digits (n div 16) @ [hexdigit (n mod 16)])"
  by pat_completeness auto
termination
  by (relation "measure id") auto

text \<open>The formats \<open>%x\<close> and \<open>%02x\<close> of the bytes \<open>%\<close> operator.\<close>

definition fmt_x :: "int \<Rightarrow> bytes" where
  "fmt_x i = (if i < 0 then CHR ''-'' # hex_digits (nat (- i)) else hex_digits (nat i))"

definition fmt_02x :: "int \<Rightarrow> bytes" where
  "fmt_02x i = (let s = fmt_x i in replicate (2 - length s) CHR ''0'' @ s)"

subsection \<open>The client\<close>

definition disconnect :: "client \<Rightarrow> client" where
  "disconnect c = ui_onStateUpdated None (sock_close (c\<lparr>connected := False\<rparr>))"

text \<open>Both are stubs in the source (\<open>TODO\<close>): they return their argument.\<close>

definition rspEscape :: "bytes \<Rightarrow> bytes" where
  "rspEscape data = data"

definition rspUnescape :: "bytes \<Rightarrow> bytes" where
  "rspUnescape data = data"

definition rspGetAck :: "client \<Rightarrow> (exn + bool) \<times> client" where
  "rspGetAck c =
     (case sock_recv 1 c of
        (Inl e, c1) \<Rightarrow> (Inl e, c1)
      | (Inr data, c1) \<Rightarrow>
          if data = ''+'' then (Inr True, c1)
          else (Inr False, py_print (MsgUnknownAck data) c1))"

text \<open>
  A \<open>while True\<close> loop is its body, which either goes round again with a new state or
  leaves the loop with a result (by \<open>break\<close>, \<open>return\<close> or an exception), and a
  recursive function that runs the body until it leaves.
\<close>

datatype ('s, 'r) ctl = Continue 's | Done 'r

text \<open>
  The body of the first loop of \<open>_rspConsumePackets\<close>: read, and stop as soon as the
  third byte from the end of the pending data is \<open>#\<close>. \<open>Inr False\<close> is the
  \<open>return None\<close> after a disconnect, \<open>Inr True\<close> the \<open>break\<close>.
\<close>

definition recv_body :: "client \<Rightarrow> (client, (exn + bool) \<times> client) ctl" where
  "recv_body c =
     (case sock_recv 30000 c of
        (Inl e, c1) \<Rightarrow> Done (Inl e, c1)
      | (Inr data, c1) \<Rightarrow>
          if data = [] then Done (Inr False, disconnect (py_print MsgDisconnected c1))
          else
            (let c2 = c1\<lparr>pendingData := pendingData c1 @ data\<rparr>
             in case py_index (pendingData c2) (- 3) of
                  Inl e \<Rightarrow> Done (Inl e, c2)
                | Inr b \<Rightarrow> if b = CHR ''#'' then Done (Inr True, c2) else Continue c2))"

text \<open>
  The size of what the peer still delivers; it goes down with every read that returns
  data.
\<close>

fun arrival_size :: "arrival \<Rightarrow> nat" where
  "arrival_size (Now d) = Suc (length d)"
| "arrival_size (Later d) = Suc (length d)"
| "arrival_size Reset = 1"

definition inbound_size :: "client \<Rightarrow> nat" where
  "inbound_size c = sum_list (map arrival_size (inbound (sock c)))"

lemma sock_recv_data_size:
  assumes "sock_recv n c = (Inr data, c1)" and "data \<noteq> []"
  shows "inbound_size c1 < inbound_size c"
  using assms
  by (auto simp: sock_recv_def deliver_def emit_def inbound_size_def
           split: if_splits list.splits arrival.splits)

lemma sock_recv_stays_open:
  "sock_recv n c = (r, c1) \<Longrightarrow> is_closed (sock c1) = is_closed (sock c)"
  by (auto simp: sock_recv_def deliver_def emit_def
           split: if_splits list.splits arrival.splits)

lemma inbound_size_pending [simp]: "inbound_size (c\<lparr>pendingData := p\<rparr>) = inbound_size c"
  by (simp add: inbound_size_def)

lemma recv_body_Continue:
  assumes "recv_body c = Continue c'"
  shows "inbound_size c' < inbound_size c \<and> is_closed (sock c') = is_closed (sock c)"
proof -
  obtain res c1 where rc: "sock_recv 30000 c = (res, c1)"
    by (cases "sock_recv 30000 c")
  with assms obtain data where res: "res = Inr data" and ne: "data \<noteq> []"
    and c': "c' = c1\<lparr>pendingData := pendingData c1 @ data\<rparr>"
    by (auto simp: recv_body_def Let_def split: sum.splits if_splits)
  from sock_recv_data_size [of 30000 c data c1] sock_recv_stays_open [OF rc] rc res ne c'
  show ?thesis by simp
qed

function rspConsumePackets_recv :: "client \<Rightarrow> (exn + bool) \<times> client" where
  "rspConsumePackets_recv c =
     (case recv_body c of Done r \<Rightarrow> r | Continue c' \<Rightarrow> rspConsumePackets_recv c')"
  by pat_completeness auto
termination
  by (relation "measure inbound_size") (auto dest: recv_body_Continue)

declare rspConsumePackets_recv.simps [simp del]

text \<open>
  The body of the second loop: cut the pending data at the first \<open>#\<close>, drop what
  precedes the first \<open>$\<close> of the piece, and classify the packet. \<open>ret\<close> is the loop's
  variable of that name. The loop is left only at its top, when no \<open>#\<close> remains, or by
  the exception of \<open>unhexlify\<close>.
\<close>

definition parse_body ::
  "bytes option \<times> client \<Rightarrow> (bytes option \<times> client, (exn + bytes option) \<times> client) ctl" where
  "parse_body rc =
     (let ret = fst rc; c = snd rc
      in case bfind CHR ''#'' (pendingData c) of
           None \<Rightarrow> Done (Inr ret, c)
         | Some pos \<Rightarrow>
             (let pkt = take pos (pendingData c);
                  c1 = c\<lparr>pendingData := drop (pos + 1) (pendingData c)\<rparr>
              in case bfind CHR ''$'' pkt of
                   None \<Rightarrow> Continue (ret, py_print (MsgMalformed pkt) c1)
                 | Some pos2 \<Rightarrow>
                     (let pkt = drop (pos2 + 1) pkt
                      in if 3 \<le> length pkt \<and> hd pkt = CHR ''T'' then
                           Continue (ret, ui_onStateUpdated (Some ''paused'')
                                            (py_print (MsgTrap pkt) c1))
                         else if 3 \<le> length pkt \<and> hd pkt = CHR ''O'' then
                           (case unhexlify (tl pkt) of
                              None \<Rightarrow> Done (Inl BinasciiError, c1)
                            | Some m \<Rightarrow> Continue (ret, py_print (MsgLog m) c1))
                         else
                           Continue (Some pkt,
                             case ret of None \<Rightarrow> c1
                                       | Some r \<Rightarrow> py_print (MsgIgnored r) c1))))"

lemma bfind_less: "bfind x xs = Some i \<Longrightarrow> i < length xs"
  by (induction xs arbitrary: i) (auto split: if_splits)

lemma parse_body_Continue:
  "parse_body (ret, c) = Continue (ret', c') \<Longrightarrow> length (pendingData c') < length (pendingData c)"
  by (auto simp: parse_body_def Let_def py_print_def ui_onStateUpdated_def emit_def
           dest: bfind_less split: option.splits if_splits)

function rspConsumePackets_parse :: "bytes option \<times> client \<Rightarrow> (exn + bytes option) \<times> client" where
  "rspConsumePackets_parse rc =
     (case parse_body rc of Done r \<Rightarrow> r | Continue rc' \<Rightarrow> rspConsumePackets_parse rc')"
  by pat_completeness auto
termination
  by (relation "measure (\<lambda>rc. length (pendingData (snd rc)))")
     (auto dest: parse_body_Continue)

declare rspConsumePackets_parse.simps [simp del]

definition rspConsumePackets :: "client \<Rightarrow> (exn + bytes option) \<times> client" where
  "rspConsumePackets c =
     (case rspConsumePackets_recv c of
        (Inl e, c1) \<Rightarrow> (Inl e, c1)
      | (Inr False, c1) \<Rightarrow> (Inr None, c1)
      | (Inr True, c1) \<Rightarrow> rspConsumePackets_parse (None, c1))"

definition rspCheckUnexpectedData :: "client \<Rightarrow> (exn + unit) \<times> client" where
  "rspCheckUnexpectedData c =
     (case sock_select c of
        (Inl e, c1) \<Rightarrow> (Inl e, c1)
      | (Inr r, c1) \<Rightarrow>
          if r then
            (case rspConsumePackets c1 of
               (Inl e, c2) \<Rightarrow> (Inl e, c2)
             | (Inr None, c2) \<Rightarrow> (Inr (), c2)
             | (Inr (Some data), c2) \<Rightarrow> (Inr (), py_print (MsgUnexpected data) c2))
          else (Inr (), c1))"

text \<open>
  One call of \<open>_rspConsumePackets\<close> fails at once on a closed socket, and when it
  returns \<open>None\<close> it has either closed the socket or read data: the loop of
  \<open>_rspRecvPacket\<close> ends.
\<close>

definition open_size :: "client \<Rightarrow> nat" where
  "open_size c = (if is_closed (sock c) then 0 else Suc (inbound_size c))"

lemma disconnect_closed [simp]: "is_closed (sock (disconnect c))"
  by (simp add: disconnect_def ui_onStateUpdated_def sock_close_def emit_def)

lemma recv_body_Done:
  assumes "recv_body c = Done (r, c1)"
  shows "(r = Inr True \<longrightarrow> inbound_size c1 < inbound_size c \<and> \<not> is_closed (sock c1))
       \<and> (r = Inr False \<longrightarrow> is_closed (sock c1))
       \<and> (is_closed (sock c) \<longrightarrow> r = Inl OSError)"
proof -
  obtain res c0 where rc: "sock_recv 30000 c = (res, c0)"
    by (cases "sock_recv 30000 c")
  have cl: "is_closed (sock c) \<Longrightarrow> res = Inl OSError"
    using rc by (simp add: sock_recv_def)
  have op: "\<And>d. res = Inr d \<Longrightarrow> \<not> is_closed (sock c0)"
    using rc sock_recv_stays_open [OF rc] by (auto simp: sock_recv_def split: if_splits)
  have sz: "\<And>d. res = Inr d \<Longrightarrow> d \<noteq> [] \<Longrightarrow> inbound_size c0 < inbound_size c"
    using rc sock_recv_data_size by blast
  from assms rc show ?thesis
    by (auto simp: recv_body_def Let_def split: sum.splits if_splits dest: cl op sz)
qed

lemma recv_loop_result:
  "rspConsumePackets_recv c = (r, c1) \<Longrightarrow>
     (r = Inr True \<longrightarrow> inbound_size c1 < inbound_size c \<and> \<not> is_closed (sock c1))
   \<and> (r = Inr False \<longrightarrow> is_closed (sock c1))
   \<and> (is_closed (sock c) \<longrightarrow> r = Inl OSError)"
proof (induction c arbitrary: r c1 rule: rspConsumePackets_recv.induct)
  case (1 c)
  show ?case
  proof (cases "recv_body c")
    case (Done res)
    with "1.prems" have "recv_body c = Done (r, c1)"
      by (subst (asm) rspConsumePackets_recv.simps) simp
    then show ?thesis by (rule recv_body_Done)
  next
    case (Continue c')
    with "1.prems" have "rspConsumePackets_recv c' = (r, c1)"
      by (subst (asm) rspConsumePackets_recv.simps) simp
    from "1.IH" [OF Continue this] recv_body_Continue [OF Continue]
    show ?thesis by auto
  qed
qed

lemma parse_body_sock:
  "parse_body (ret, c) = Continue (ret', c') \<Longrightarrow> sock c' = sock c \<and> connected c' = connected c"
  "parse_body (ret, c) = Done (r, c') \<Longrightarrow> sock c' = sock c \<and> connected c' = connected c"
  by (auto simp: parse_body_def Let_def py_print_def ui_onStateUpdated_def emit_def
           split: option.splits if_splits)

lemma parse_loop_sock:
  "rspConsumePackets_parse rc = (r, c1) \<Longrightarrow>
     sock c1 = sock (snd rc) \<and> connected c1 = connected (snd rc)"
proof (induction rc arbitrary: r c1 rule: rspConsumePackets_parse.induct)
  case (1 rc)
  obtain ret c where rc: "rc = (ret, c)" by (cases rc)
  show ?case
  proof (cases "parse_body rc")
    case (Done res)
    with "1.prems" have "parse_body (ret, c) = Done (r, c1)"
      by (subst (asm) rspConsumePackets_parse.simps) (simp add: rc)
    then show ?thesis using parse_body_sock(2) rc by simp
  next
    case (Continue rc')
    obtain ret' c' where rc': "rc' = (ret', c')" by (cases rc')
    from Continue "1.prems" have "rspConsumePackets_parse rc' = (r, c1)"
      by (subst (asm) rspConsumePackets_parse.simps) simp
    from "1.IH" [OF Continue this] parse_body_sock(1) [of ret c ret' c'] Continue rc rc'
    show ?thesis by simp
  qed
qed

lemma rspConsumePackets_None_size:
  assumes "rspConsumePackets c = (Inr None, c1)"
  shows "open_size c1 < open_size c"
proof -
  obtain r c0 where rl: "rspConsumePackets_recv c = (r, c0)"
    by (cases "rspConsumePackets_recv c")
  note res = recv_loop_result [OF rl]
  show ?thesis
  proof (cases r)
    case (Inl e)
    with assms rl show ?thesis by (simp add: rspConsumePackets_def)
  next
    case (Inr b)
    show ?thesis
    proof (cases b)
      case True
      with assms rl Inr have "rspConsumePackets_parse (None, c0) = (Inr None, c1)"
        by (simp add: rspConsumePackets_def)
      from parse_loop_sock [OF this] res Inr True show ?thesis
        by (auto simp: open_size_def inbound_size_def)
    next
      case False
      with assms rl Inr have "c1 = c0" by (simp add: rspConsumePackets_def)
      with res Inr False show ?thesis
        by (auto simp: open_size_def)
    qed
  qed
qed

function rspRecvPacket :: "client \<Rightarrow> (exn + bytes) \<times> client" where
  "rspRecvPacket c =
     (case rspConsumePackets c of
        (Inl e, c1) \<Rightarrow> (Inl e, c1)
      | (Inr None, c1) \<Rightarrow> rspRecvPacket c1
      | (Inr (Some ret), c1) \<Rightarrow> (Inr ret, c1))"
  by pat_completeness auto
termination
  by (relation "measure open_size") (auto dest: rspConsumePackets_None_size [OF sym])

declare rspRecvPacket.simps [simp del]

text \<open>What \<open>rspCall\<close> returns: \<open>True\<close>, the response, or \<open>None\<close> after an exception.\<close>

datatype callret = RetTrue | RetBytes bytes | RetNone

text \<open>Sequencing of steps that may raise.\<close>

definition seq ::
  "(client \<Rightarrow> (exn + 'a) \<times> client) \<Rightarrow> ('a \<Rightarrow> client \<Rightarrow> (exn + 'b) \<times> client)
     \<Rightarrow> client \<Rightarrow> (exn + 'b) \<times> client" where
  "seq m f c = (case m c of (Inl e, c1) \<Rightarrow> (Inl e, c1) | (Inr a, c1) \<Rightarrow> f a c1)"

text \<open>The checksum loop of \<open>rspCall\<close>, ending in \<open>checksum &= 0xFF\<close>.\<close>

definition rspCall_checksum :: "bytes \<Rightarrow> int" where
  "rspCall_checksum data = foldl (\<lambda>checksum b. checksum + of_char b) 0 data AND 0xFF"

text \<open>The body of the \<open>try\<close> block of \<open>rspCall\<close>.\<close>

definition rspCall_try :: "bytes \<Rightarrow> bool \<Rightarrow> bool \<Rightarrow> client \<Rightarrow> (exn + callret) \<times> client" where
  "rspCall_try data waitForAck waitForResp =
     seq rspCheckUnexpectedData (\<lambda>_.
     seq (sock_sendall ''$'') (\<lambda>_.
     seq (sock_sendall data) (\<lambda>_.
     seq (sock_sendall ''#'') (\<lambda>_.
     seq (sock_sendall (fmt_02x (rspCall_checksum data))) (\<lambda>_.
     seq (if waitForAck then rspGetAck else (\<lambda>c. (Inr True, c))) (\<lambda>_.
     if \<not> waitForResp then (\<lambda>c. (Inr RetTrue, c))
     else seq rspRecvPacket (\<lambda>pkt c. (Inr (RetBytes (rspUnescape pkt)), c))))))))"

text \<open>
  \<open>rspCall\<close> for a \<open>bytes\<close> argument. The exception \<open>Not connected\<close> is raised outside
  the \<open>try\<close>; every exception inside it is caught, printed and answered by
  \<open>disconnect\<close>, and the call then returns \<open>None\<close>.
\<close>

definition rspCall :: "bytes \<Rightarrow> bool \<Rightarrow> bool \<Rightarrow> client \<Rightarrow> (exn + callret) \<times> client" where
  "rspCall data waitForAck waitForResp c =
     (if \<not> connected c then (Inl NotConnected, c)
      else case rspCall_try (rspEscape data) waitForAck waitForResp c of
             (Inl e, c1) \<Rightarrow> (Inr RetNone, disconnect (py_print (MsgSocketError e) c1))
           | (Inr v, c1) \<Rightarrow> (Inr v, c1))"


definition pause :: "client \<Rightarrow> (exn + bool) \<times> client" where
  "pause c =
     (case sock_sendall [CHR 0x03] c of
        (Inl e, c1) \<Rightarrow> (Inl e, c1)
      | (Inr _, c1) \<Rightarrow> (Inr True, c1))"


text \<open>The arguments of the successful \<open>sendall\<close> calls of a trace, in order.\<close>

fun sends :: "event list \<Rightarrow> bytes list" where
  "sends [] = []"
| "sends (Send b # es) = b # sends es"
| "sends (e # es) = sends es"


subsection \<open>The frame in the specification's words\<close>

text \<open>
  The specification describes a frame as \<open>$\<close>, the payload, \<open>#\<close> and the sum of the
  payload bytes modulo 256 in two lowercase hexadecimal digits. These definitions follow
  that wording; they are compared below with what \<open>rspCall\<close> writes.
\<close>

definition spec_checksum :: "bytes \<Rightarrow> nat" where
  "spec_checksum payload = sum_list (map of_char payload) mod 256"

definition spec_hex2 :: "nat \<Rightarrow> bytes" where
  "spec_hex2 n = [''0123456789abcdef'' ! (n div 16 mod 16), ''0123456789abcdef'' ! (n mod 16)]"


text \<open>A connected client on a working transport, with nothing pending and no history.\<close>

definition idle_client :: "arrival list \<Rightarrow> client" where
  "idle_client inb =
     \<lparr>sock = \<lparr>is_closed = False, inbound = inb, sends_left = None\<rparr>,
      connected = True, pendingData = [], trace = []\<rparr>"

text \<open>
  What successive \<open>recv(n)\<close> calls return for data that is already there: pieces of
  \<open>n\<close> bytes, the last one shorter.
\<close>

function reads :: "nat \<Rightarrow> bytes \<Rightarrow> bytes list" where
  "reads n d = (if n = 0 \<or> length d \<le> n then [d] else take n d # reads n (drop n d))"
  by pat_completeness auto
termination
  by (relation "measure (\<lambda>(n, d). length d)") auto

declare reads.simps [simp del]

section \<open>Properties\<close>

subsection \<open>Searching and cutting the pending data\<close>

lemma bfind_None_iff: "bfind x xs = None \<longleftrightarrow> x \<notin> set xs"
  by (induction xs) auto

lemma bfind_append_first: "x \<notin> set pre \<Longrightarrow> bfind x (pre @ x # rest) = Some (length pre)"
  by (induction pre) auto

lemma parse_body_frame:
  assumes pd: "pendingData c = pre @ CHR ''$'' # pkt @ CHR ''#'' # rest"
    and pre: "CHR ''#'' \<notin> set pre" "CHR ''$'' \<notin> set pre"
    and pkt: "CHR ''#'' \<notin> set pkt"
  shows "parse_body (ret, c) =
     (if 3 \<le> length pkt \<and> hd pkt = CHR ''T'' then
        Continue (ret, ui_onStateUpdated (Some ''paused'')
                         (py_print (MsgTrap pkt) (c\<lparr>pendingData := rest\<rparr>)))
      else if 3 \<le> length pkt \<and> hd pkt = CHR ''O'' then
        (case unhexlify (tl pkt) of
           None \<Rightarrow> Done (Inl BinasciiError, c\<lparr>pendingData := rest\<rparr>)
         | Some m \<Rightarrow> Continue (ret, py_print (MsgLog m) (c\<lparr>pendingData := rest\<rparr>)))
      else
        Continue (Some pkt,
          case ret of None \<Rightarrow> c\<lparr>pendingData := rest\<rparr>
                    | Some r \<Rightarrow> py_print (MsgIgnored r) (c\<lparr>pendingData := rest\<rparr>)))"
proof -
  have h: "bfind CHR ''#'' (pre @ CHR ''$'' # pkt @ CHR ''#'' # rest) = Some (Suc (length pre + length pkt))"
    using bfind_append_first [of "CHR ''#''" "pre @ CHR ''$'' # pkt" rest] pre pkt
    by simp
  have s: "bfind CHR ''$'' (pre @ CHR ''$'' # pkt) = Some (length pre)"
    using pre(2) by (rule bfind_append_first)
  show ?thesis
    unfolding parse_body_def by (simp add: pd h s Let_def del: bfind.simps)
qed

lemma parse_loop_end:
  "CHR ''#'' \<notin> set (pendingData c) \<Longrightarrow> rspConsumePackets_parse (ret, c) = (Inr ret, c)"
  by (subst rspConsumePackets_parse.simps) (simp add: parse_body_def bfind_None_iff [symmetric])


lemma recv_loop_once:
  assumes "\<not> is_closed (sock c)" and "inbound (sock c) = a # r" and "a = Now d \<or> a = Later d"
    and "d \<noteq> []" and "length d \<le> 30000"
    and "py_index (pendingData c @ d) (- 3) = Inr CHR ''#''"
  shows "rspConsumePackets_recv c =
     (Inr True, c\<lparr>sock := (sock c)\<lparr>inbound := r\<rparr>, pendingData := pendingData c @ d,
                  trace := trace c @ (if a = Later d then [Wait] else []) @ [Recv d]\<rparr>)"
  using assms
  by (subst rspConsumePackets_recv.simps)
     (auto simp: recv_body_def sock_recv_def deliver_def emit_def Let_def)

lemma sends_append [simp]: "sends (xs @ ys) = sends xs @ sends ys"
  by (induction xs rule: sends.induct) auto



lemma sends_disconnect [simp]: "sends (trace (disconnect c)) = sends (trace c)"
  by (simp add: disconnect_def ui_onStateUpdated_def sock_close_def emit_def)

lemma sends_py_print [simp]: "sends (trace (py_print m c)) = sends (trace c)"
  by (simp add: py_print_def emit_def)










subsection \<open>What a call writes\<close>





subsection \<open>One round of the packet loop\<close>

lemma parse_loop_step:
  "parse_body rc = Continue rc' \<Longrightarrow> rspConsumePackets_parse rc = rspConsumePackets_parse rc'"
  by (subst rspConsumePackets_parse.simps) simp

lemma parse_loop_response:
  assumes "pendingData c = pre @ CHR ''$'' # pkt @ CHR ''#'' # rest"
    and "CHR ''#'' \<notin> set pre" and "CHR ''$'' \<notin> set pre" and "CHR ''#'' \<notin> set pkt"
    and "length pkt < 3 \<or> (hd pkt \<noteq> CHR ''T'' \<and> hd pkt \<noteq> CHR ''O'')"
  shows "rspConsumePackets_parse (ret, c) =
         rspConsumePackets_parse (Some pkt,
           case ret of None \<Rightarrow> c\<lparr>pendingData := rest\<rparr>
                     | Some r \<Rightarrow> py_print (MsgIgnored r) (c\<lparr>pendingData := rest\<rparr>))"
  using assms(5) by (intro parse_loop_step) (auto simp: parse_body_frame [OF assms(1-4)])




subsection \<open>A call on a working transport\<close>

lemma py_index_third_last: "py_index (xs @ [a, b, c]) (- 3) = Inr a"
  by (simp add: py_index_def nth_append)

lemma sock_sendall_ok:
  "\<not> is_closed (sock c) \<Longrightarrow> sends_left (sock c) = None \<Longrightarrow>
     sock_sendall bs c = (Inr (), emit (Send bs) c)"
  by (simp add: sock_sendall_def)

lemma check_nothing_readable:
  assumes "\<not> is_closed (sock c)"
    and "inbound (sock c) = [] \<or> (\<exists>d r. inbound (sock c) = Later d # r)"
  shows "rspCheckUnexpectedData c = (Inr (), emit (Select False) c)"
  using assms by (auto simp: rspCheckUnexpectedData_def sock_select_def)

lemma rspCall_try_sent:
  assumes "\<not> is_closed (sock c)" and "sends_left (sock c) = None"
    and "inbound (sock c) = [] \<or> (\<exists>d r. inbound (sock c) = Later d # r)"
  shows "rspCall_try data False w c =
     (let c1 = c\<lparr>trace := trace c @ [Select False, Send ''$'', Send data, Send ''#'',
                                        Send (fmt_02x (rspCall_checksum data))]\<rparr>
      in if w then seq rspRecvPacket (\<lambda>pkt c. (Inr (RetBytes (rspUnescape pkt)), c)) c1
         else (Inr RetTrue, c1))"
  using assms
  by (simp add: rspCall_try_def seq_def check_nothing_readable sock_sendall_ok emit_def Let_def)

lemma rspRecvPacket_once:
  "rspConsumePackets c = (Inr (Some p), c1) \<Longrightarrow> rspRecvPacket c = (Inr p, c1)"
  by (subst rspRecvPacket.simps) simp

lemma rspConsumePackets_once:
  assumes "\<not> is_closed (sock c)" and "inbound (sock c) = a # r" and "a = Now d \<or> a = Later d"
    and "d \<noteq> []" and "length d \<le> 30000"
    and "py_index (pendingData c @ d) (- 3) = Inr CHR ''#''"
  shows "rspConsumePackets c =
     rspConsumePackets_parse (None,
        c\<lparr>sock := (sock c)\<lparr>inbound := r\<rparr>, pendingData := pendingData c @ d,
          trace := trace c @ (if a = Later d then [Wait] else []) @ [Recv d]\<rparr>)"
  by (simp add: rspConsumePackets_def recv_loop_once [OF assms])



subsection \<open>Checksum and hexadecimal digits\<close>

lemma hexdigit_table:
  assumes "d < 16"
  shows "hexdigit d = ''0123456789abcdef'' ! d"
proof -
  from assms have "d = 0 \<or> d = 1 \<or> d = 2 \<or> d = 3 \<or> d = 4 \<or> d = 5 \<or> d = 6 \<or> d = 7
      \<or> d = 8 \<or> d = 9 \<or> d = 10 \<or> d = 11 \<or> d = 12 \<or> d = 13 \<or> d = 14 \<or> d = 15"
    by arith
  then show ?thesis
    by (auto simp: hexdigit_def char_of_eq_iff)
qed

lemma hex_digits_small: "n < 16 \<Longrightarrow> hex_digits n = [hexdigit n]"
  by simp

lemma fmt_02x_hex2:
  assumes "n < 256"
  shows "fmt_02x (int n) = spec_hex2 n"
proof (cases "n < 16")
  case True
  then show ?thesis
    by (simp add: fmt_02x_def fmt_x_def spec_hex2_def hexdigit_table)
next
  case False
  from assms have d: "n div 16 < 16" by simp
  have "hex_digits n = hex_digits (n div 16) @ [hexdigit (n mod 16)]"
    using False by (subst hex_digits.simps) simp
  also have "\<dots> = [hexdigit (n div 16), hexdigit (n mod 16)]"
    using d by (simp only: hex_digits_small) simp
  finally show ?thesis
    using d by (simp add: fmt_02x_def fmt_x_def spec_hex2_def hexdigit_table)
qed

lemma foldl_plus_sum: "foldl (\<lambda>s b. s + f b) a xs = (a::int) + sum_list (map f xs)"
  by (induction xs arbitrary: a) auto

lemma and_255: "(x::int) AND 0xFF = x mod 256"
  using take_bit_eq_mask [of 8 x] by (simp add: take_bit_eq_mod mask_eq_exp_minus_1)

lemma sum_of_char_int: "sum_list (map of_char xs) = int (sum_list (map of_char xs))"
  by (induction xs) (auto simp: of_nat_of_char)

lemma rspCall_checksum_spec: "rspCall_checksum data = int (spec_checksum data)"
  unfolding rspCall_checksum_def spec_checksum_def foldl_plus_sum and_255
  by (subst sum_of_char_int) (simp add: zmod_int)

lemma fmt_checksum_spec: "fmt_02x (rspCall_checksum data) = spec_hex2 (spec_checksum data)"
  unfolding rspCall_checksum_spec by (rule fmt_02x_hex2) (simp add: spec_checksum_def)

lemma spec_hex2_digits:
  "\<exists>a b. spec_hex2 n = [a, b] \<and> a \<in> set ''0123456789abcdef'' \<and> b \<in> set ''0123456789abcdef''"
proof -
  have "''0123456789abcdef'' ! (n div 16 mod 16) \<in> set ''0123456789abcdef''"
    by (rule nth_mem) simp
  moreover have "''0123456789abcdef'' ! (n mod 16) \<in> set ''0123456789abcdef''"
    by (rule nth_mem) simp
  ultimately show ?thesis
    unfolding spec_hex2_def by blast
qed


subsection \<open>Whole calls and what they write\<close>

lemma rspCall_fire:
  assumes "connected c" and "\<not> is_closed (sock c)" and "sends_left (sock c) = None"
    and "inbound (sock c) = [] \<or> (\<exists>d r. inbound (sock c) = Later d # r)"
  shows "rspCall data False False c =
     (Inr RetTrue, c\<lparr>trace := trace c @ [Select False, Send ''$'', Send data, Send ''#'',
                                          Send (fmt_02x (rspCall_checksum data))]\<rparr>)"
  using assms by (simp add: rspCall_def rspEscape_def rspCall_try_sent Let_def)


subsection \<open>Frames arriving in one read\<close>









lemma parse_body_malformed:
  assumes "pendingData c = junk @ CHR ''#'' # rest"
    and "CHR ''#'' \<notin> set junk" and "CHR ''$'' \<notin> set junk"
  shows "parse_body (ret, c) =
           Continue (ret, py_print (MsgMalformed junk) (c\<lparr>pendingData := rest\<rparr>))"
proof -
  have h: "bfind CHR ''#'' (junk @ CHR ''#'' # rest) = Some (length junk)"
    using assms(2) by (rule bfind_append_first)
  have s: "bfind CHR ''$'' junk = None"
    using assms(3) by (simp add: bfind_None_iff)
  show ?thesis
    unfolding parse_body_def by (simp add: assms(1) h s Let_def del: bfind.simps)
qed

lemma wire_of_fresh_call:
  "concat (sends (trace (snd (rspCall P False False (idle_client []))))) =
     CHR ''$'' # P @ CHR ''#'' # spec_hex2 (spec_checksum P)"
proof -
  have "rspCall P False False (idle_client []) =
     (Inr RetTrue, (idle_client [])\<lparr>trace := trace (idle_client []) @
        [Select False, Send ''$'', Send P, Send ''#'', Send (fmt_02x (rspCall_checksum P))]\<rparr>)"
    by (rule rspCall_fire) (simp_all add: idle_client_def)
  then show ?thesis
    by (simp add: idle_client_def fmt_checksum_spec)
qed

lemma hex_digit_not_hash: "a \<in> set ''0123456789abcdef'' \<Longrightarrow> a \<noteq> CHR ''#''"
  by auto

subsection \<open>Interrupt and poll\<close>

lemma pause_effect:
  assumes "\<not> is_closed (sock c)" and "sends_left (sock c) \<noteq> Some 0"
  shows "\<exists>c'. pause c = (Inr True, c') \<and> trace c' = trace c @ [Send [CHR 0x03]]
           \<and> inbound (sock c') = inbound (sock c) \<and> pendingData c' = pendingData c
           \<and> connected c' = connected c \<and> \<not> is_closed (sock c')"
  using assms
  by (cases "sends_left (sock c)")
     (auto simp: pause_def sock_sendall_def emit_def split: nat.splits)


lemma recv_loop_step:
  "recv_body c = Continue c' \<Longrightarrow> rspConsumePackets_recv c = rspConsumePackets_recv c'"
  by (subst rspConsumePackets_recv.simps) simp


subsection \<open>The session after a call\<close>















lemma reads_short: "length d \<le> n \<Longrightarrow> reads n d = [d]"
  by (subst reads.simps) simp

lemma reads_long: "0 < n \<Longrightarrow> n < length d \<Longrightarrow> reads n d = take n d # reads n (drop n d)"
  by (subst reads.simps) simp

lemma recv_loop_reads:
  assumes "\<not> is_closed (sock c)" and "inbound (sock c) = Now d # r" and "d \<noteq> []"
    and "\<forall>i. i + 3 < length (pendingData c @ d) \<longrightarrow> (pendingData c @ d) ! i \<noteq> CHR ''#''"
    and "py_index (pendingData c @ d) (- 3) = Inr CHR ''#''"
  shows "rspConsumePackets_recv c =
     (Inr True, c\<lparr>sock := (sock c)\<lparr>inbound := r\<rparr>, pendingData := pendingData c @ d,
                  trace := trace c @ map Recv (reads 30000 d)\<rparr>)"
  using assms
proof (induction "length d" arbitrary: c d rule: less_induct)
  case less
  show ?case
  proof (cases "length d \<le> 30000")
    case True
    then show ?thesis
      using recv_loop_once [of c "Now d" r d] less.prems by (simp add: reads_short)
  next
    case False
    let ?h = "take 30000 d" and ?t = "drop 30000 d"
    let ?c2 = "c\<lparr>sock := (sock c)\<lparr>inbound := Now ?t # r\<rparr>,
                 pendingData := pendingData c @ ?h, trace := trace c @ [Recv ?h]\<rparr>"
    have nh: "d ! 29997 \<noteq> CHR ''#''"
      using less.prems(4) [THEN spec, of "length (pendingData c) + 29997"] False by simp
    have ix: "\<exists>b. py_index (pendingData c @ ?h) (- 3) = Inr b \<and> b \<noteq> CHR ''#''"
      using nh False by (simp add: py_index_def nth_append)
    have "recv_body c = Continue ?c2"
      using less.prems(1,2) False ix
      by (auto simp: recv_body_def sock_recv_def deliver_def emit_def Let_def)
    then have "rspConsumePackets_recv c = rspConsumePackets_recv ?c2"
      by (rule recv_loop_step)
    also have "\<dots> =
       (Inr True, ?c2\<lparr>sock := (sock ?c2)\<lparr>inbound := r\<rparr>,
                      pendingData := pendingData ?c2 @ ?t,
                      trace := trace ?c2 @ map Recv (reads 30000 ?t)\<rparr>)"
      using False less.prems by (intro less.hyps) simp_all
    finally show ?thesis
      using False by (simp add: reads_long)
  qed
qed

lemma frame_no_early_hash:
  assumes "CHR ''#'' \<notin> set pd" and "CHR ''#'' \<notin> set p"
  shows "\<forall>i. i + 3 < length (pd @ CHR ''$'' # p @ [CHR ''#'', d1, d2])
           \<longrightarrow> (pd @ CHR ''$'' # p @ [CHR ''#'', d1, d2]) ! i \<noteq> CHR ''#''"
proof (intro allI impI)
  fix i
  assume "i + 3 < length (pd @ CHR ''$'' # p @ [CHR ''#'', d1, d2])"
  then have i: "i < length (pd @ CHR ''$'' # p)" by simp
  have "(pd @ CHR ''$'' # p @ [CHR ''#'', d1, d2]) ! i = ((pd @ CHR ''$'' # p) @ [CHR ''#'', d1, d2]) ! i"
    by simp
  also have "\<dots> = (pd @ CHR ''$'' # p) ! i"
    using i by (simp only: nth_append if_True)
  also have "\<dots> \<in> set (pd @ CHR ''$'' # p)"
    using i by (rule nth_mem)
  finally show "(pd @ CHR ''$'' # p @ [CHR ''#'', d1, d2]) ! i \<noteq> CHR ''#''"
    using assms by auto
qed

lemma rspConsumePackets_one_frame:
  assumes "\<not> is_closed (sock c)"
    and "inbound (sock c) = Now (CHR ''$'' # p @ [CHR ''#'', d1, d2]) # r"
    and "CHR ''#'' \<notin> set (pendingData c)" and "CHR ''$'' \<notin> set (pendingData c)"
    and "CHR ''#'' \<notin> set p" and "d1 \<noteq> CHR ''#''" and "d2 \<noteq> CHR ''#''"
    and "length p < 3 \<or> (hd p \<noteq> CHR ''T'' \<and> hd p \<noteq> CHR ''O'')"
  shows "rspConsumePackets c =
           (Inr (Some p),
            c\<lparr>sock := (sock c)\<lparr>inbound := r\<rparr>, pendingData := [d1, d2],
              trace := trace c @ map Recv (reads 30000 (CHR ''$'' # p @ [CHR ''#'', d1, d2]))\<rparr>)"
proof -
  let ?buf = "CHR ''$'' # p @ [CHR ''#'', d1, d2]"
  let ?c2 = "c\<lparr>sock := (sock c)\<lparr>inbound := r\<rparr>, pendingData := pendingData c @ ?buf,
               trace := trace c @ map Recv (reads 30000 ?buf)\<rparr>"
  have ix: "py_index (pendingData c @ ?buf) (- 3) = Inr CHR ''#''"
    using py_index_third_last [of "pendingData c @ CHR ''$'' # p" "CHR ''#''" d1 d2] by simp
  have "rspConsumePackets_recv c = (Inr True, ?c2)"
    using assms(1,2) _ frame_no_early_hash [OF assms(3,5)] ix
    by (rule recv_loop_reads) simp
  then have "rspConsumePackets c = rspConsumePackets_parse (None, ?c2)"
    by (simp add: rspConsumePackets_def)
  also have "\<dots> = rspConsumePackets_parse (Some p, ?c2\<lparr>pendingData := [d1, d2]\<rparr>)"
    using parse_loop_response [of ?c2 "pendingData c" p "[d1, d2]" None] assms(3,4,5,8)
    by simp
  also have "\<dots> = (Inr (Some p), ?c2\<lparr>pendingData := [d1, d2]\<rparr>)"
    using assms(6,7) by (intro parse_loop_end) auto
  finally show ?thesis by simp
qed


lemma roundtrip_without_hash:
  assumes "CHR ''#'' \<notin> set P"
    and "length P < 3 \<or> (hd P \<noteq> CHR ''T'' \<and> hd P \<noteq> CHR ''O'')"
  shows "case rspRecvPacket (idle_client
                [Now (concat (sends (trace (snd (rspCall P False False (idle_client []))))))]) of
           (Inr pkt, B) \<Rightarrow> rspUnescape pkt = P
         | (Inl e, B) \<Rightarrow> False"
proof -
  obtain a b where ab: "spec_hex2 (spec_checksum P) = [a, b]"
    and a: "a \<noteq> CHR ''#''" and b: "b \<noteq> CHR ''#''"
    using spec_hex2_digits [of "spec_checksum P"] hex_digit_not_hash by blast
  let ?wire = "CHR ''$'' # P @ [CHR ''#'', a, b]"
  let ?B = "idle_client [Now ?wire]"
  have w: "concat (sends (trace (snd (rspCall P False False (idle_client []))))) = ?wire"
    by (simp add: wire_of_fresh_call ab)
  have "rspConsumePackets ?B =
          (Inr (Some P), ?B\<lparr>sock := (sock ?B)\<lparr>inbound := []\<rparr>, pendingData := [a, b],
                            trace := trace ?B @ map Recv (reads 30000 ?wire)\<rparr>)"
    using assms a b by (intro rspConsumePackets_one_frame) (simp_all add: idle_client_def)
  then have "rspRecvPacket ?B =
          (Inr P, ?B\<lparr>sock := (sock ?B)\<lparr>inbound := []\<rparr>, pendingData := [a, b],
                     trace := trace ?B @ map Recv (reads 30000 ?wire)\<rparr>)"
    by (rule rspRecvPacket_once)
  then show ?thesis
    unfolding w by (simp add: rspUnescape_def)
qed

section \<open>The specification's claims\<close>

text \<open>
  C1. As stated the claim fails: the frame \<open>$OK#00\<close>, whose payload sums to \<open>0x9a\<close>,
  is decoded without any error and its payload is delivered as the response.
\<close>

theorem corrupt_checksum_is_delivered:
  "spec_checksum ''OK'' = 0x9a \<and>
   rspConsumePackets (idle_client [Now ''$OK#00'']) =
     (Inr (Some ''OK''),
      \<lparr>sock = \<lparr>is_closed = False, inbound = [], sends_left = None\<rparr>,
       connected = True, pendingData = ''00'', trace = [Recv ''$OK#00'']\<rparr>)"
proof
  show "spec_checksum ''OK'' = 0x9a"
    by (simp add: spec_checksum_def)
  show "rspConsumePackets (idle_client [Now ''$OK#00'']) =
     (Inr (Some ''OK''),
      \<lparr>sock = \<lparr>is_closed = False, inbound = [], sends_left = None\<rparr>,
       connected = True, pendingData = ''00'', trace = [Recv ''$OK#00'']\<rparr>)"
    using rspConsumePackets_one_frame
            [of "idle_client [Now ''$OK#00'']" "''OK''" "CHR ''0''" "CHR ''0''" "[]"]
    by (simp add: idle_client_def reads_short)
qed

text \<open>
  C1, amended. The decoder never looks at the two bytes that follow \<open>#\<close>. A frame whose
  payload is classified as a response is delivered as the response whatever those two
  bytes are, whether or not they agree with the sum of the payload bytes modulo 256: no
  error is signalled, and the two bytes stay in the pending data, unread.
\<close>

theorem checksum_digits_are_not_validated:
  assumes "\<not> is_closed (sock c)"
    and "inbound (sock c) = Now (CHR ''$'' # p @ [CHR ''#'', d1, d2]) # r"
    and "CHR ''#'' \<notin> set (pendingData c)" and "CHR ''$'' \<notin> set (pendingData c)"
    and "CHR ''#'' \<notin> set p" and "d1 \<noteq> CHR ''#''" and "d2 \<noteq> CHR ''#''"
    and "length p < 3 \<or> (hd p \<noteq> CHR ''T'' \<and> hd p \<noteq> CHR ''O'')"
  shows "rspConsumePackets c =
           (Inr (Some p),
            c\<lparr>sock := (sock c)\<lparr>inbound := r\<rparr>, pendingData := [d1, d2],
              trace := trace c @ map Recv (reads 30000 (CHR ''$'' # p @ [CHR ''#'', d1, d2]))\<rparr>)"
  using assms by (rule rspConsumePackets_one_frame)

theorem checksum_digits_are_not_validated_witness:
  "rspConsumePackets (idle_client [Now ''$E01#zz'']) =
     (Inr (Some ''E01''),
      \<lparr>sock = \<lparr>is_closed = False, inbound = [], sends_left = None\<rparr>,
       connected = True, pendingData = ''zz'', trace = [Recv ''$E01#zz'']\<rparr>)"
  using checksum_digits_are_not_validated
          [of "idle_client [Now ''$E01#zz'']" "''E01''" "CHR ''z''" "CHR ''z''" "[]"]
  by (simp add: idle_client_def reads_short)

text \<open>
  C2. As stated the claim fails: the payload \<open>a#b\<close> is written as \<open>$a#b#e6\<close>, and a
  client that receives these bytes decodes the packet \<open>a\<close> (and prints \<open>b\<close> as
  malformed data).
\<close>

theorem payload_with_hash_does_not_round_trip:
  "concat (sends (trace (snd (rspCall ''a#b'' False False (idle_client []))))) = ''$a#b#e6''
   \<and> rspRecvPacket (idle_client [Now ''$a#b#e6'']) =
       (Inr ''a'',
        \<lparr>sock = \<lparr>is_closed = False, inbound = [], sends_left = None\<rparr>,
         connected = True, pendingData = ''e6'',
         trace = [Recv ''$a#b#e6'', Print (MsgMalformed ''b'')]\<rparr>)
   \<and> rspUnescape ''a'' \<noteq> ''a#b''"
proof (intro conjI)
  show "concat (sends (trace (snd (rspCall ''a#b'' False False (idle_client []))))) = ''$a#b#e6''"
    by (simp add: wire_of_fresh_call spec_checksum_def spec_hex2_def)
  let ?B = "idle_client [Now ''$a#b#e6'']"
  let ?c2 = "?B\<lparr>sock := (sock ?B)\<lparr>inbound := []\<rparr>, pendingData := ''$a#b#e6'',
                  trace := [Recv ''$a#b#e6'']\<rparr>"
  let ?c3 = "?c2\<lparr>pendingData := ''b#e6''\<rparr>"
  let ?c4 = "py_print (MsgMalformed ''b'') (?c3\<lparr>pendingData := ''e6''\<rparr>)"
  have "rspConsumePackets ?B = rspConsumePackets_parse (None, ?c2)"
    using rspConsumePackets_once [of ?B "Now ''$a#b#e6''" "[]" "''$a#b#e6''"]
    by (simp add: idle_client_def py_index_def)
  also have "\<dots> = rspConsumePackets_parse (Some ''a'', ?c3)"
    using parse_loop_response [of ?c2 "[]" "''a''" "''b#e6''" None] by simp
  also have "\<dots> = rspConsumePackets_parse (Some ''a'', ?c4)"
    using parse_body_malformed [of ?c3 "''b''" "''e6''" "Some ''a''"]
    by (intro parse_loop_step) simp
  also have "\<dots> = (Inr (Some ''a''), ?c4)"
    by (rule parse_loop_end) (simp add: py_print_def emit_def)
  finally have "rspRecvPacket ?B = (Inr ''a'', ?c4)"
    by (rule rspRecvPacket_once)
  then show "rspRecvPacket ?B =
       (Inr ''a'',
        \<lparr>sock = \<lparr>is_closed = False, inbound = [], sends_left = None\<rparr>,
         connected = True, pendingData = ''e6'',
         trace = [Recv ''$a#b#e6'', Print (MsgMalformed ''b'')]\<rparr>)"
    by (simp add: idle_client_def py_print_def emit_def)
  show "rspUnescape ''a'' \<noteq> ''a#b''"
    by (simp add: rspUnescape_def)
qed

text \<open>
  C2, amended. For every payload \<open>P\<close> that contains no \<open>#\<close> and is not classified as a
  notification (fewer than 3 bytes, or a first byte that is neither \<open>T\<close> nor \<open>O\<close>),
  decoding the frame that \<open>rspCall\<close> writes for \<open>P\<close> yields \<open>P\<close> again. Run-length
  encoding is not supported: \<open>*\<close> is an ordinary payload byte, and nothing is expanded
  on the way.
\<close>

theorem round_trip_without_hash:
  assumes "CHR ''#'' \<notin> set P"
    and "length P < 3 \<or> (hd P \<noteq> CHR ''T'' \<and> hd P \<noteq> CHR ''O'')"
  shows "case rspRecvPacket (idle_client
                [Now (concat (sends (trace (snd (rspCall P False False (idle_client []))))))]) of
           (Inr pkt, B) \<Rightarrow> rspUnescape pkt = P
         | (Inl e, B) \<Rightarrow> False"
  using assms by (rule roundtrip_without_hash)

theorem round_trip_without_hash_witness:
  "concat (sends (trace (snd (rspCall ''0* $}'' False False (idle_client []))))) = ''$0* $}#1b''
   \<and> fst (rspRecvPacket (idle_client [Now ''$0* $}#1b''])) = Inr ''0* $}''"
proof -
  have w: "concat (sends (trace (snd (rspCall ''0* $}'' False False (idle_client []))))) = ''$0* $}#1b''"
    by (simp add: wire_of_fresh_call spec_checksum_def spec_hex2_def)
  from round_trip_without_hash [of "''0* $}''"] show ?thesis
    unfolding w by (auto simp: rspUnescape_def split: prod.splits sum.splits)
qed













text \<open>
  C7. As stated the claim fails: \<open>pause\<close> returns as soon as the byte is written. The
  stop frame that answers the interrupt is still unread on the socket, and \<open>pause\<close> has
  neither waited nor read.
\<close>

theorem pause_does_not_wait:
  "pause (idle_client [Later ''$T05#b9'']) =
     (Inr True,
      \<lparr>sock = \<lparr>is_closed = False, inbound = [Later ''$T05#b9''], sends_left = None\<rparr>,
       connected = True, pendingData = [], trace = [Send [CHR 0x03]]\<rparr>)"
  by (simp add: pause_def sock_sendall_def emit_def idle_client_def)

text \<open>
  C7, amended. \<open>pause\<close> writes exactly the single raw byte 0x03, unframed and outside
  \<open>rspCall\<close>, and returns \<open>True\<close> at once: it performs no read and no wait, and leaves
  the stop notification to a later \<open>poll\<close> or call.
\<close>

theorem pause_sends_interrupt_byte:
  assumes "\<not> is_closed (sock c)" and "sends_left (sock c) \<noteq> Some 0"
  shows "\<exists>c'. pause c = (Inr True, c') \<and> trace c' = trace c @ [Send [CHR 0x03]]
           \<and> inbound (sock c') = inbound (sock c) \<and> pendingData c' = pendingData c
           \<and> connected c' = connected c \<and> \<not> is_closed (sock c')"
  using assms by (rule pause_effect)

theorem pause_sends_interrupt_byte_witness:
  "\<exists>c'. pause ((idle_client [Later ''$T05#b9''])\<lparr>connected := False\<rparr>) = (Inr True, c')
        \<and> trace c' = [Send [CHR 0x03]] \<and> inbound (sock c') = [Later ''$T05#b9'']"
  using pause_sends_interrupt_byte [of "(idle_client [Later ''$T05#b9''])\<lparr>connected := False\<rparr>"]
  by (auto simp: idle_client_def)





text \<open>
  C10. A packet whose payload is shorter than 3 bytes is treated as a response whatever
  its first byte is: the loop goes on with it as the value to return, the observer is
  not called, and the only line that may be printed is the \<open>Ignored:\<close> of the response
  it replaces. When no further \<open>#\<close> is buffered, it is what the loop returns.
\<close>

theorem short_packet_is_response:
  assumes "pendingData c = pre @ CHR ''$'' # pkt @ CHR ''#'' # rest"
    and "CHR ''#'' \<notin> set pre" and "CHR ''$'' \<notin> set pre" and "CHR ''#'' \<notin> set pkt"
    and "length pkt < 3"
  shows "rspConsumePackets_parse (ret, c) =
           rspConsumePackets_parse (Some pkt,
             case ret of None \<Rightarrow> c\<lparr>pendingData := rest\<rparr>
                       | Some r \<Rightarrow> py_print (MsgIgnored r) (c\<lparr>pendingData := rest\<rparr>))
       \<and> (CHR ''#'' \<notin> set rest \<longrightarrow>
            rspConsumePackets_parse (ret, c) =
              (Inr (Some pkt),
               case ret of None \<Rightarrow> c\<lparr>pendingData := rest\<rparr>
                         | Some r \<Rightarrow> py_print (MsgIgnored r) (c\<lparr>pendingData := rest\<rparr>)))"
proof -
  let ?c1 = "case ret of None \<Rightarrow> c\<lparr>pendingData := rest\<rparr>
                       | Some r \<Rightarrow> py_print (MsgIgnored r) (c\<lparr>pendingData := rest\<rparr>)"
  have step: "rspConsumePackets_parse (ret, c) = rspConsumePackets_parse (Some pkt, ?c1)"
    using assms by (intro parse_loop_response) auto
  have pd: "pendingData ?c1 = rest"
    by (simp add: py_print_def emit_def split: option.splits)
  have "CHR ''#'' \<notin> set rest \<Longrightarrow> rspConsumePackets_parse (Some pkt, ?c1) = (Inr (Some pkt), ?c1)"
    by (rule parse_loop_end) (simp add: pd)
  with step show ?thesis by simp
qed

theorem short_packet_is_response_witness:
  "rspConsumePackets_parse
     (None, \<lparr>sock = \<lparr>is_closed = False, inbound = [], sends_left = None\<rparr>, connected = True,
             pendingData = ''$T0#84'', trace = []\<rparr>)
   = (Inr (Some ''T0''),
      \<lparr>sock = \<lparr>is_closed = False, inbound = [], sends_left = None\<rparr>, connected = True,
       pendingData = ''84'', trace = []\<rparr>)"
  using short_packet_is_response [of "\<lparr>sock = \<lparr>is_closed = False, inbound = [], sends_left = None\<rparr>, connected = True,
             pendingData = ''$T0#84'', trace = []\<rparr>" "[]" "''T0''" "''84''" None, THEN conjunct2]
  by simp

end
